theory Spec2Isabelle
  imports Complex_Main "HOL-Library.Sublist" "HOL-Library.AList" "HOL-Library.Multiset"
begin

section \<open>Severity utilities (frontend/src/utils/severity.ts)\<close>

text \<open>
  The TypeScript \<open>number\<close> scores are modelled as \<open>real\<close>: every finite double is a
  real number. \<open>getSeverity\<close> only compares a score with constants. \<open>convertToTenScale\<close>
  computes, and every arithmetic operation of the source is the exact operation followed
  by the rounding of the result to the nearest double; \<open>NaN\<close> and the infinities are
  outside the model.
\<close>

datatype SeverityLevel = critical | severe | moderate | low | normal

record Severity =
  level :: SeverityLevel
  label :: string
  color :: string
  bgColor :: string
  borderColor :: string










definition getSeverity :: "real \<Rightarrow> bool \<Rightarrow> Severity" where
  "getSeverity score isAnomaly =
     (if score < - 0.5 then
        \<lparr>level = critical, label = ''Critical'', color = ''#ef4444'',
         bgColor = ''rgba(239, 68, 68, 0.15)'', borderColor = ''rgba(239, 68, 68, 0.4)''\<rparr>
      else if score < - 0.2 then
        \<lparr>level = severe, label = ''Severe'', color = ''#f97316'',
         bgColor = ''rgba(249, 115, 22, 0.15)'', borderColor = ''rgba(249, 115, 22, 0.3)''\<rparr>
      else if score < - 0.05 then
        \<lparr>level = moderate, label = ''Moderate'', color = ''#fbbf24'',
         bgColor = ''rgba(251, 191, 36, 0.15)'', borderColor = ''rgba(251, 191, 36, 0.3)''\<rparr>
      else if score < 0 then
        \<lparr>level = low, label = ''Low'', color = ''#60a5fa'',
         bgColor = ''rgba(96, 165, 250, 0.15)'', borderColor = ''rgba(96, 165, 250, 0.3)''\<rparr>
      else
        \<lparr>level = normal, label = ''Normal'', color = ''#6ee7b7'',
         bgColor = ''rgba(16, 185, 129, 0.15)'', borderColor = ''rgba(16, 185, 129, 0.3)''\<rparr>)"

text \<open>
  The tier ordering \<open>critical > severe > moderate > low > normal\<close> as a rank: a larger
  rank is a more severe tier.
\<close>

fun severity_rank :: "SeverityLevel \<Rightarrow> nat" where
  "severity_rank critical = 4"
| "severity_rank severe = 3"
| "severity_rank moderate = 2"
| "severity_rank low = 1"
| "severity_rank normal = 0"




section \<open>The platform: strings, objects and arrays\<close>

text \<open>
  A string is a list of characters. \<open>toLowerCase\<close> maps the letters \<open>A\<close> to \<open>Z\<close> to
  \<open>a\<close> to \<open>z\<close> and leaves every other character as it is; \<open>includes\<close> tests whether
  the argument occurs as a contiguous run of characters.
\<close>

definition lower_char :: "char \<Rightarrow> char" where
  "lower_char c =
     (let n = (of_char c :: nat) in if 65 \<le> n \<and> n \<le> 90 then char_of (n + 32) else c)"

definition toLowerCase :: "string \<Rightarrow> string" where
  "toLowerCase s = map lower_char s"

fun String_includes :: "string \<Rightarrow> string \<Rightarrow> bool" where
  "String_includes [] searchString = (searchString = [])"
| "String_includes (c # cs) searchString =
     (prefix searchString (c # cs) \<or> String_includes cs searchString)"

text \<open>
  The accumulator of the three \<open>reduce\<close> calls is an object created by \<open>{}\<close> whose
  values are counts. It is modelled by its own properties, an association list in the
  order of creation. A property name that \<open>Object.prototype\<close> already has is not a key
  of the model: reading such a name from a fresh object yields the inherited member
  instead of \<open>undefined\<close>, so the counting step does not count it.
\<close>

type_synonym counts = "(string \<times> nat) list"

definition Object_prototype_keys :: "string list" where
  "Object_prototype_keys =
     [''constructor'', ''hasOwnProperty'', ''isPrototypeOf'', ''propertyIsEnumerable'',
      ''toLocaleString'', ''toString'', ''valueOf'', ''__proto__'', ''__defineGetter__'',
      ''__defineSetter__'', ''__lookupGetter__'', ''__lookupSetter__'']"

definition own_property_names :: "string list \<Rightarrow> bool" where
  "own_property_names ks = (\<forall>k\<in>set ks. k \<notin> set Object_prototype_keys)"

text \<open>\<open>acc[key] = (acc[key] || 0) + 1\<close>, for a key that is not inherited.\<close>

definition increment :: "counts \<Rightarrow> string \<Rightarrow> counts" where
  "increment acc key =
     AList.update key
       ((case map_of acc key of None \<Rightarrow> 0 | Some n \<Rightarrow> if n = 0 then 0 else n) + 1) acc"

text \<open>
  The enumeration order of own property names: the names that are array indices (the
  decimal numerals of \<open>0\<close> to \<open>2^32 - 2\<close>, written without a sign or a leading zero)
  in ascending numeric order, then all other names in the order of creation.
\<close>

definition is_digit :: "char \<Rightarrow> bool" where
  "is_digit c = (let n = (of_char c :: nat) in 48 \<le> n \<and> n \<le> 57)"

definition digits_value :: "string \<Rightarrow> nat" where
  "digits_value s = foldl (\<lambda>n c. 10 * n + (of_char c - 48)) 0 s"

definition is_array_index :: "string \<Rightarrow> bool" where
  "is_array_index s =
     (s \<noteq> [] \<and> list_all is_digit s \<and> (hd s \<noteq> CHR ''0'' \<or> s = ''0'')
      \<and> digits_value s \<le> 4294967294)"

definition Object_entries :: "counts \<Rightarrow> (string \<times> nat) list" where
  "Object_entries obj =
     sort_key (\<lambda>p. digits_value (fst p)) (filter (\<lambda>p. is_array_index (fst p)) obj)
     @ filter (\<lambda>p. \<not> is_array_index (fst p)) obj"

text \<open>
  \<open>Array.prototype.sort\<close> with a comparison function is a stable sort; a comparison
  that yields \<open>NaN\<close> (here \<open>None\<close>) counts as \<open>0\<close>. The model is the stable insertion
  sort: with a consistent comparison function every stable sort returns the same array.
\<close>

definition SortCompare :: "('a \<Rightarrow> 'a \<Rightarrow> int option) \<Rightarrow> 'a \<Rightarrow> 'a \<Rightarrow> int" where
  "SortCompare comparefn x y = (case comparefn x y of None \<Rightarrow> 0 | Some v \<Rightarrow> v)"

fun insert_sorted :: "('a \<Rightarrow> 'a \<Rightarrow> int option) \<Rightarrow> 'a \<Rightarrow> 'a list \<Rightarrow> 'a list" where
  "insert_sorted comparefn x [] = [x]"
| "insert_sorted comparefn x (y # ys) =
     (if SortCompare comparefn x y \<le> 0 then x # y # ys
      else y # insert_sorted comparefn x ys)"

definition Array_sort :: "('a \<Rightarrow> 'a \<Rightarrow> int option) \<Rightarrow> 'a list \<Rightarrow> 'a list" where
  "Array_sort comparefn xs = foldr (insert_sorted comparefn) xs []"

text \<open>
  A comparison function is consistent on the elements of an array when it never yields
  \<open>NaN\<close> on them, compares every element as equal to itself, and its relations
  \<open>equal\<close>, \<open>less\<close> and \<open>greater\<close> are transitive, \<open>equal\<close> also symmetric. The
  language fixes the result of \<open>sort\<close> for such arrays only; otherwise the order of the
  result is left to the engine.
\<close>

definition consistent_comparefn :: "('a \<Rightarrow> 'a \<Rightarrow> int option) \<Rightarrow> 'a list \<Rightarrow> bool" where
  "consistent_comparefn comparefn xs =
     list_all (\<lambda>a. list_all (\<lambda>b. list_all (\<lambda>c.
        comparefn a b \<noteq> None
        \<and> SortCompare comparefn a a = 0
        \<and> (if SortCompare comparefn a b = 0 then SortCompare comparefn b a = 0 else True)
        \<and> (if SortCompare comparefn a b = 0 \<and> SortCompare comparefn b c = 0
             then SortCompare comparefn a c = 0 else True)
        \<and> (if SortCompare comparefn a b < 0 \<and> SortCompare comparefn b c < 0
             then SortCompare comparefn a c < 0 else True)
        \<and> (if 0 < SortCompare comparefn a b \<and> 0 < SortCompare comparefn b c
             then 0 < SortCompare comparefn a c else True)) xs) xs) xs"

text \<open>\<open>Array.prototype.slice(start, end)\<close>; a negative index counts from the end.\<close>

definition Array_slice :: "int \<Rightarrow> int option \<Rightarrow> 'a list \<Rightarrow> 'a list" where
  "Array_slice start fin xs =
     (let len = int (length xs);
          k = (if start < 0 then max (len + start) 0 else min start len);
          final = (case fin of None \<Rightarrow> len
                   | Some e \<Rightarrow> if e < 0 then max (len + e) 0 else min e len)
      in take (nat (final - k)) (drop (nat k) xs))"

section \<open>The dashboard (pages/Visualizations.tsx)\<close>

record LogEntry =
  id_field :: string
  serviceName :: string
  message :: string
  timestamp :: int
  isAnomaly :: bool
  score :: real

text \<open>
  The date functions of the platform depend on the viewer's locale and time zone, so they
  are parameters: \<open>toLocaleDateString t\<close> stands for
  \<open>new Date(t).toLocaleDateString()\<close> and \<open>getTime s\<close> for \<open>new Date(s).getTime()\<close>,
  with \<open>None\<close> for \<open>NaN\<close> (a string that is not a date). The result is \<open>None\<close> when
  the comparison function is not consistent on the entries, as it is when a date string
  is not read back as a time: the order of the buckets is then the engine's.
\<close>

definition getTimeSeriesData ::
  "(int \<Rightarrow> string) \<Rightarrow> (string \<Rightarrow> int option) \<Rightarrow> LogEntry list
     \<Rightarrow> (string \<times> nat) list option" where
  "getTimeSeriesData toLocaleDateString getTime anomalies =
     (let grouped = foldl (\<lambda>acc log. increment acc (toLocaleDateString (timestamp log)))
                      [] anomalies;
          entries = Object_entries grouped;
          comparefn = (\<lambda>a b. case (getTime (fst a), getTime (fst b)) of
                               (Some ta, Some tb) \<Rightarrow> Some (ta - tb) | _ \<Rightarrow> None)
      in if consistent_comparefn comparefn entries
         then Some (Array_slice (- 10) None (Array_sort comparefn entries))
         else None)"

definition getServiceData :: "LogEntry list \<Rightarrow> (string \<times> nat) list" where
  "getServiceData anomalies =
     (let grouped = foldl (\<lambda>acc log. increment acc (serviceName log)) [] anomalies
      in Array_slice 0 (Some 5)
           (Array_sort (\<lambda>a b. Some (int (snd b) - int (snd a))) (Object_entries grouped)))"

text \<open>The category chosen by the reducer of \<open>getCategoryData\<close> for one message.\<close>

definition category_of :: "string \<Rightarrow> string" where
  "category_of m =
     (let msg = toLowerCase m
      in if String_includes msg ''error'' \<or> String_includes msg ''exception''
           then ''Errors''
         else if String_includes msg ''timeout'' then ''Timeouts''
         else if String_includes msg ''connection'' \<or> String_includes msg ''unavailable''
           then ''Connection Issues''
         else if String_includes msg ''fail'' then ''Failures''
         else ''Other'')"

definition getCategoryData :: "LogEntry list \<Rightarrow> (string \<times> nat) list" where
  "getCategoryData anomalies =
     (let categories = foldl (\<lambda>acc log. increment acc (category_of (message log)))
                         [] anomalies
      in Object_entries categories)"

text \<open>The two click handlers; the result is the new value of \<open>filteredLogs\<close>.\<close>

definition handleServiceClick :: "string \<Rightarrow> LogEntry list \<Rightarrow> LogEntry list" where
  "handleServiceClick name anomalies = filter (\<lambda>a. serviceName a = name) anomalies"

definition handleCategoryClick :: "string \<Rightarrow> LogEntry list \<Rightarrow> LogEntry list" where
  "handleCategoryClick category anomalies =
     filter (\<lambda>a.
        let msg = toLowerCase (message a)
        in if category = ''Errors''
                \<and> (String_includes msg ''error'' \<or> String_includes msg ''exception'')
             then True
           else if category = ''Timeouts'' \<and> String_includes msg ''timeout'' then True
           else if category = ''Connection Issues''
                   \<and> (String_includes msg ''connection''
                        \<or> String_includes msg ''unavailable'') then True
           else if category = ''Failures'' \<and> String_includes msg ''fail'' then True
           else if category = ''Other''
             then \<not> String_includes msg ''error'' \<and> \<not> String_includes msg ''exception''
                  \<and> \<not> String_includes msg ''timeout''
                  \<and> \<not> String_includes msg ''connection''
                  \<and> \<not> String_includes msg ''unavailable''
                  \<and> \<not> String_includes msg ''fail''
           else False) anomalies"

section \<open>The specification's vocabulary\<close>

text \<open>
  The category classifier as the specification words it: a case-insensitive substring
  search for fixed keyword sets, tested in a fixed priority order, the first matching rule
  giving the category and \<open>Other\<close> being the default.
\<close>

definition mentions :: "string \<Rightarrow> string \<Rightarrow> bool" where
  "mentions m w = sublist w (toLowerCase m)"

definition category_rules :: "(string list \<times> string) list" where
  "category_rules =
     [([''error'', ''exception''], ''Errors''),
      ([''timeout''], ''Timeouts''),
      ([''connection'', ''unavailable''], ''Connection Issues''),
      ([''fail''], ''Failures'')]"

definition classify_spec :: "string \<Rightarrow> string" where
  "classify_spec m =
     (case find (\<lambda>rule. list_ex (mentions m) (fst rule)) category_rules of
        Some rule \<Rightarrow> snd rule
      | None \<Rightarrow> ''Other'')"

text \<open>The count an accumulator holds for a key, \<open>0\<close> for a key it does not have.\<close>

definition count_of :: "counts \<Rightarrow> string \<Rightarrow> nat" where
  "count_of acc k = (case map_of acc k of None \<Rightarrow> 0 | Some n \<Rightarrow> n)"

text \<open>
  The position at which a key first occurs in a list of keys, and the order in which
  \<open>Object_entries\<close> enumerates two keys of an object built from that list: array indices
  first, by value, then the other keys by first occurrence.
\<close>

definition first_position :: "string \<Rightarrow> string list \<Rightarrow> nat" where
  "first_position k ks = length (takeWhile (\<lambda>x. x \<noteq> k) ks)"

definition enumerated_before :: "string list \<Rightarrow> string \<Rightarrow> string \<Rightarrow> bool" where
  "enumerated_before ks a b =
     (if is_array_index a
      then (if is_array_index b then digits_value a < digits_value b else True)
      else (\<not> is_array_index b \<and> first_position a ks < first_position b ks))"

definition no_array_index :: "string list \<Rightarrow> bool" where
  "no_array_index ks = (\<forall>k\<in>set ks. \<not> is_array_index k)"

text \<open>
  Tie-breaking in a list of buckets made from the keys \<open>ks\<close>: buckets of equal count
  stand in the order of first occurrence of their keys, respectively in the enumeration
  order of their keys.
\<close>

definition first_encounter_ties :: "string list \<Rightarrow> (string \<times> nat) list \<Rightarrow> bool" where
  "first_encounter_ties ks buckets =
     sorted_wrt
       (\<lambda>a b. if snd a = snd b then first_position (fst a) ks < first_position (fst b) ks
               else True) buckets"

definition enumeration_ties :: "string list \<Rightarrow> (string \<times> nat) list \<Rightarrow> bool" where
  "enumeration_ties ks buckets =
     sorted_wrt (\<lambda>a b. if snd a = snd b then enumerated_before ks (fst a) (fst b) else True)
       buckets"

text \<open>A numeral without a leading zero (the empty string included).\<close>

definition digit_string :: "string \<Rightarrow> bool" where
  "digit_string s = (list_all is_digit s \<and> (s = [] \<or> hd s \<noteq> CHR ''0''))"

text \<open>
  Dates are identified by their date strings. One date is before another when every
  record of the first has a smaller timestamp than every record of the second.
\<close>

definition date_before :: "(int \<Rightarrow> string) \<Rightarrow> LogEntry list \<Rightarrow> string \<Rightarrow> string \<Rightarrow> bool" where
  "date_before toLocaleDateString logs d d' =
     (\<forall>r\<in>set logs. \<forall>r'\<in>set logs.
        toLocaleDateString (timestamp r) = d \<and> toLocaleDateString (timestamp r') = d'
        \<longrightarrow> timestamp r < timestamp r')"

text \<open>
  The assumption on the platform under which a date string stands for a calendar date:
  on the records at hand, the date strings are not names inherited from
  \<open>Object.prototype\<close>, every date string is read back as a time, a later timestamp
  is never read back as an earlier time, and two different date strings are never read
  back as the same time. This is what \<open>new Date(s)\<close> does with the strings
  \<open>toLocaleDateString\<close> produces in the locale \<open>en-US\<close>, where both are the local
  midnight of the record's day.
\<close>

definition chronological_dates ::
  "(int \<Rightarrow> string) \<Rightarrow> (string \<Rightarrow> int option) \<Rightarrow> LogEntry list \<Rightarrow> bool" where
  "chronological_dates toLocaleDateString getTime logs =
     (\<forall>r\<in>set logs.
        toLocaleDateString (timestamp r) \<notin> set Object_prototype_keys
        \<and> (\<forall>r'\<in>set logs.
              (timestamp r \<le> timestamp r' \<longrightarrow>
                 (case (getTime (toLocaleDateString (timestamp r)),
                        getTime (toLocaleDateString (timestamp r'))) of
                    (Some t, Some t') \<Rightarrow> t \<le> t' | _ \<Rightarrow> False))
              \<and> (getTime (toLocaleDateString (timestamp r))
                     = getTime (toLocaleDateString (timestamp r'))
                   \<longrightarrow> toLocaleDateString (timestamp r) = toLocaleDateString (timestamp r'))))"

text \<open>The time a bucket's date string is read back as.\<close>

definition time_of :: "(string \<Rightarrow> int option) \<Rightarrow> string \<times> nat \<Rightarrow> int" where
  "time_of getTime p = (case getTime (fst p) of None \<Rightarrow> 0 | Some t \<Rightarrow> t)"

section \<open>Sample data\<close>

text \<open>
  Sample records, and the date functions of the locale \<open>en-US\<close> in the time zone UTC
  on the first twelve days of 1970.
\<close>

definition sample_entry :: "string \<Rightarrow> int \<Rightarrow> LogEntry" where
  "sample_entry service t =
     \<lparr>id_field = ''log'', serviceName = service, message = ''request timeout'',
      timestamp = t, isAnomaly = True, score = - 0.3\<rparr>"

definition january_1970 :: "(string \<times> int) list" where
  "january_1970 =
     [(''1/1/1970'', 0), (''1/2/1970'', 1), (''1/3/1970'', 2), (''1/4/1970'', 3),
      (''1/5/1970'', 4), (''1/6/1970'', 5), (''1/7/1970'', 6), (''1/8/1970'', 7),
      (''1/9/1970'', 8), (''1/10/1970'', 9), (''1/11/1970'', 10), (''1/12/1970'', 11)]"

definition toLocaleDateString_1970 :: "int \<Rightarrow> string" where
  "toLocaleDateString_1970 t =
     (case find (\<lambda>p. snd p = t div 86400000) january_1970 of
        Some p \<Rightarrow> fst p | None \<Rightarrow> ''Invalid Date'')"

definition getTime_1970 :: "string \<Rightarrow> int option" where
  "getTime_1970 s =
     (case find (\<lambda>p. fst p = s) january_1970 of
        Some p \<Rightarrow> Some (snd p * 86400000) | None \<Rightarrow> None)"

definition sample_days :: "LogEntry list" where
  "sample_days =
     [sample_entry ''api'' 900000000, sample_entry ''api'' 100, sample_entry ''db'' 86400000,
      sample_entry ''db'' 200000000, sample_entry ''api'' 300000000,
      sample_entry ''api'' 400000000, sample_entry ''api'' 500000000,
      sample_entry ''api'' 600000000, sample_entry ''api'' 700000000,
      sample_entry ''api'' 800000000, sample_entry ''api'' 86400001,
      sample_entry ''api'' 950000000, sample_entry ''cache'' 650000000]"

text \<open>
  The locale \<open>en-GB\<close> in the time zone UTC on some days of 1970: its date strings put
  the day first, and \<open>new Date(s)\<close> reads such a string with the month first.
\<close>

definition en_GB_1970 :: "(string \<times> int) list" where
  "en_GB_1970 =
     [(''01/01/1970'', 0), (''02/01/1970'', 1), (''03/01/1970'', 2), (''01/02/1970'', 31),
      (''02/02/1970'', 32)]"

definition toLocaleDateString_en_GB :: "int \<Rightarrow> string" where
  "toLocaleDateString_en_GB t =
     (case find (\<lambda>p. snd p = t div 86400000) en_GB_1970 of
        Some p \<Rightarrow> fst p | None \<Rightarrow> ''Invalid Date'')"

definition month_first_1970 :: "(string \<times> int) list" where
  "month_first_1970 =
     [(''01/01/1970'', 0), (''02/01/1970'', 31), (''03/01/1970'', 59), (''01/02/1970'', 1),
      (''02/02/1970'', 32)]"

definition getTime_month_first :: "string \<Rightarrow> int option" where
  "getTime_month_first s =
     (case find (\<lambda>p. fst p = s) month_first_1970 of
        Some p \<Rightarrow> Some (snd p * 86400000) | None \<Rightarrow> None)"

definition day_first_days :: "LogEntry list" where
  "day_first_days = [sample_entry ''api'' 86400000, sample_entry ''api'' 2678400000]"

definition sample_services :: "LogEntry list" where
  "sample_services =
     [sample_entry ''web'' 1, sample_entry ''db'' 2, sample_entry ''web'' 3,
      sample_entry ''cache'' 4, sample_entry ''db'' 5, sample_entry ''auth'' 6,
      sample_entry ''api'' 7, sample_entry ''queue'' 8]"

definition numeric_services :: "LogEntry list" where
  "numeric_services = [sample_entry ''10'' 1, sample_entry ''2'' 2]"

section \<open>The severity classifier\<close>

lemma level_getSeverity:
  "level (getSeverity s a) =
     (if s < - 0.5 then critical else if s < - 0.2 then severe
      else if s < - 0.05 then moderate else if s < 0 then low else normal)"
  by (simp add: getSeverity_def)



section \<open>The score normalizer\<close>

subsection \<open>Rounding to a double\<close>














subsection \<open>The steps of the computation\<close>




























subsection \<open>The claims on the score normalizer\<close>




section \<open>The order of the severity tiers\<close>

text \<open>
  C8: the tier is monotone in the score: of two scores the smaller one never gets a less
  severe tier.
\<close>

theorem C8_severity_monotone:
  "s1 < s2 \<Longrightarrow>
     severity_rank (level (getSeverity s2 a2)) \<le> severity_rank (level (getSeverity s1 a1))"
  by (simp add: level_getSeverity)

theorem C8_severity_monotone_witness:
  "(- 0.3 :: real) < - 0.01
   \<and> severity_rank (level (getSeverity (- 0.01) True)) \<le> severity_rank (level (getSeverity (- 0.3) False))
   \<and> level (getSeverity (- 0.3) False) = severe \<and> level (getSeverity (- 0.01) True) = low"
proof -
  have h: "(- 0.3 :: real) < - 0.01" by simp
  show ?thesis
    using h C8_severity_monotone [OF h, of True False] by (simp add: level_getSeverity)
qed

section \<open>Strings and the counting accumulator\<close>

lemma String_includes_sublist: "String_includes s w = sublist w s"
  by (induction s) (auto simp: sublist_Cons_right)

lemma category_of_classify_spec: "category_of m = classify_spec m"
  by (simp add: category_of_def classify_spec_def category_rules_def mentions_def
      String_includes_sublist Let_def)

lemma category_of_range:
  "category_of m \<in> {''Errors'', ''Timeouts'', ''Connection Issues'', ''Failures'', ''Other''}"
  by (simp add: category_of_def Let_def)

text \<open>The keys of the category accumulator are never inherited names.\<close>

lemma category_of_own_property: "own_property_names (map category_of ms)"
proof -
  have "k \<notin> set Object_prototype_keys"
    if "k \<in> {''Errors'', ''Timeouts'', ''Connection Issues'', ''Failures'', ''Other''}" for k
    using that by (auto simp: Object_prototype_keys_def)
  then show ?thesis
    unfolding own_property_names_def using category_of_range by auto
qed

lemma map_of_increment:
  "map_of (increment acc k) k' = (if k' = k then Some (count_of acc k + 1) else map_of acc k')"
  by (auto simp: increment_def count_of_def update_conv split: option.splits)

lemma count_of_increment:
  "count_of (increment acc k) k' = count_of acc k' + (if k' = k then 1 else 0)"
  by (simp add: count_of_def map_of_increment)

lemma count_of_foldl_increment:
  "count_of (foldl increment acc ks) k = count_of acc k + count_list ks k"
  by (induction ks arbitrary: acc) (auto simp: count_of_increment)

lemma keys_increment: "fst ` set (increment acc k) = insert k (fst ` set acc)"
  by (auto simp: increment_def update_keys simp flip: set_map)

lemma keys_foldl_increment: "fst ` set (foldl increment acc ks) = fst ` set acc \<union> set ks"
  by (induction ks arbitrary: acc) (auto simp: keys_increment)

lemma distinct_increment: "distinct (map fst acc) \<Longrightarrow> distinct (map fst (increment acc k))"
  by (simp add: increment_def distinct_update)

lemma distinct_foldl_increment:
  "distinct (map fst acc) \<Longrightarrow> distinct (map fst (foldl increment acc ks))"
  by (induction ks arbitrary: acc) (auto simp: distinct_increment)

lemma increment_update: "increment acc k = AList.update k (count_of acc k + 1) acc"
  by (simp add: increment_def count_of_def split: option.splits)

lemma sum_update:
  "sum_list (map snd (AList.update k v acc)) + count_of acc k = sum_list (map snd acc) + v"
proof (induction acc)
  case Nil
  then show ?case by (simp add: count_of_def)
next
  case (Cons p acc)
  obtain k' n where p: "p = (k', n)" by (cases p)
  show ?case
  proof (cases "k' = k")
    case True
    then show ?thesis using p by (simp add: count_of_def)
  next
    case False
    then have "count_of (p # acc) k = count_of acc k" using p by (simp add: count_of_def)
    with Cons False p show ?thesis by simp
  qed
qed

lemma sum_increment:
  "sum_list (map snd (increment acc k)) = sum_list (map snd acc) + 1"
  using sum_update [of k "count_of acc k + 1" acc] by (simp add: increment_update)

lemma sum_foldl_increment:
  "sum_list (map snd (foldl increment acc ks)) = sum_list (map snd acc) + length ks"
  by (induction ks arbitrary: acc) (simp_all add: sum_increment)

lemma mset_Object_entries: "mset (Object_entries obj) = mset obj"
  by (simp add: Object_entries_def)

lemma set_Object_entries: "set (Object_entries obj) = set obj"
  by (auto simp: Object_entries_def)

lemma sum_Object_entries: "sum_list (map snd (Object_entries obj)) = sum_list (map snd obj)"
proof -
  have "mset (map snd (Object_entries obj)) = mset (map snd obj)"
    by (simp add: mset_Object_entries)
  then show ?thesis by (metis sum_mset_sum_list)
qed

lemma distinct_Object_entries:
  "distinct (map fst obj) \<Longrightarrow> distinct (map fst (Object_entries obj))"
proof -
  have "mset (map fst (Object_entries obj)) = mset (map fst obj)"
    by (simp add: mset_Object_entries)
  then show "distinct (map fst obj) \<Longrightarrow> distinct (map fst (Object_entries obj))"
    by (metis mset_eq_imp_distinct_iff)
qed

lemma count_list_map: "count_list (map f xs) k = length (filter (\<lambda>x. f x = k) xs)"
  by (induction xs) auto

lemma map_of_grouped:
  "map_of (foldl increment [] ks) k = (if k \<in> set ks then Some (count_list ks k) else None)"
proof (cases "k \<in> set ks")
  case True
  then have "k \<in> fst ` set (foldl increment [] ks)" by (simp add: keys_foldl_increment)
  then obtain n where n: "map_of (foldl increment [] ks) k = Some n"
    by (metis domD dom_map_of_conv_image_fst)
  then have "count_of (foldl increment [] ks) k = n" by (simp add: count_of_def)
  then have "n = count_list ks k"
    using count_of_foldl_increment [of "[]" ks k] by (simp add: count_of_def)
  with n True show ?thesis by simp
next
  case False
  then have "k \<notin> fst ` set (foldl increment [] ks)" by (simp add: keys_foldl_increment)
  then have "map_of (foldl increment [] ks) k = None"
    by (metis domIff dom_map_of_conv_image_fst)
  with False show ?thesis by simp
qed

lemma entry_grouped:
  "(k, n) \<in> set (foldl increment [] ks) \<longleftrightarrow> k \<in> set ks \<and> n = count_list ks k"
proof -
  have "distinct (map fst (foldl increment [] ks))" by (simp add: distinct_foldl_increment)
  then have "(k, n) \<in> set (foldl increment [] ks) \<longleftrightarrow> map_of (foldl increment [] ks) k = Some n"
    by simp
  then show ?thesis by (auto simp: map_of_grouped)
qed

lemma Object_entries_single: "Object_entries [p] = [p]"
  by (simp add: Object_entries_def)

lemmas eval_category = category_of_def toLowerCase_def lower_char_def Let_def char_of_def
  bit_Suc_0_iff

lemmas eval_object = increment_def Object_entries_def is_array_index_def is_digit_def
  digits_value_def

lemmas eval_array = Array_sort_def SortCompare_def Array_slice_def

section \<open>Category classification and the category aggregate\<close>

text \<open>
  C5: the category of a message is the result of the specification's ordered rule list
  (error or exception, then timeout, then connection or unavailable, then fail, else
  Other) on the lower-cased message; it is always one of the five names; a message that
  mentions both \<open>error\<close> and \<open>connection\<close> is \<open>Errors\<close> and not
  \<open>Connection Issues\<close>; the two example messages are \<open>Errors\<close> and \<open>Other\<close>; two
  messages that differ only in the case of their letters have the same category; and this
  is the key under which \<open>getCategoryData\<close> counts a record.
\<close>

theorem C5_category_of_rules:
  "category_of m = classify_spec m
   \<and> category_of m \<in> {''Errors'', ''Timeouts'', ''Connection Issues'', ''Failures'', ''Other''}
   \<and> (mentions m ''error'' \<and> mentions m ''connection'' \<longrightarrow>
        category_of m = ''Errors'' \<and> category_of m \<noteq> ''Connection Issues'')
   \<and> category_of ''connection error occurred'' = ''Errors''
   \<and> category_of ''Connection ERROR occurred'' = ''Errors''
   \<and> category_of ''random informational text'' = ''Other''
   \<and> (toLowerCase m = toLowerCase m' \<longrightarrow> category_of m = category_of m')
   \<and> getCategoryData [r] = [(category_of (message r), 1)]"
proof -
  have "mentions m ''error'' \<longrightarrow> category_of m = ''Errors''"
    by (simp add: category_of_def mentions_def String_includes_sublist Let_def)
  moreover have "category_of ''connection error occurred'' = ''Errors''"
    by (simp add: eval_category)
  moreover have "category_of ''Connection ERROR occurred'' = ''Errors''"
    by (simp add: eval_category)
  moreover have "category_of ''random informational text'' = ''Other''"
    by (simp add: eval_category)
  moreover have "toLowerCase m = toLowerCase m' \<longrightarrow> category_of m = category_of m'"
    by (simp add: category_of_def)
  moreover have "getCategoryData [r] = [(category_of (message r), 1)]"
    by (simp add: getCategoryData_def increment_def Object_entries_single)
  ultimately show ?thesis
    using category_of_classify_spec [of m] category_of_range [of m] by simp
qed

theorem C5_category_of_rules_witness:
  "mentions ''connection error occurred'' ''error''
   \<and> mentions ''connection error occurred'' ''connection''
   \<and> category_of ''connection error occurred'' = ''Errors''
   \<and> category_of ''connection error occurred'' \<noteq> ''Connection Issues''
   \<and> classify_spec ''connection error occurred'' = ''Errors''"
proof -
  have h: "mentions ''connection error occurred'' ''error''
      \<and> mentions ''connection error occurred'' ''connection''"
    by (simp add: mentions_def toLowerCase_def lower_char_def flip: String_includes_sublist)
  show ?thesis
    using h C5_category_of_rules [of "''connection error occurred''"] by metis
qed

text \<open>
  C9: every record is counted under exactly one category: the counts of the buckets sum
  to the number of records, no category has two buckets, and a bucket \<open>(c, n)\<close> is
  returned exactly when some record has category \<open>c\<close> and \<open>n\<close> is the number of the
  records of category \<open>c\<close>.
\<close>

theorem C9_category_counts_sum:
  "sum_list (map snd (getCategoryData logs)) = length logs
   \<and> distinct (map fst (getCategoryData logs))
   \<and> ((c, n) \<in> set (getCategoryData logs) \<longleftrightarrow>
        (\<exists>r \<in> set logs. category_of (message r) = c)
        \<and> n = length (filter (\<lambda>r. category_of (message r) = c) logs))"
proof -
  let ?ks = "map (\<lambda>r. category_of (message r)) logs"
  have g: "getCategoryData logs = Object_entries (foldl increment [] ?ks)"
    by (simp add: getCategoryData_def foldl_map)
  have "sum_list (map snd (getCategoryData logs)) = length logs"
    by (simp add: g sum_Object_entries sum_foldl_increment)
  moreover have "distinct (map fst (getCategoryData logs))"
    by (simp add: g distinct_Object_entries distinct_foldl_increment)
  moreover have "(c, n) \<in> set (getCategoryData logs) \<longleftrightarrow>
        (\<exists>r \<in> set logs. category_of (message r) = c)
        \<and> n = length (filter (\<lambda>r. category_of (message r) = c) logs)"
    by (auto simp: g set_Object_entries entry_grouped count_list_map)
  ultimately show ?thesis by blast
qed

theorem C9_category_counts_sum_witness:
  "sum_list (map snd (getCategoryData
      [\<lparr>id_field = ''1'', serviceName = ''auth'', message = ''Login FAILED'', timestamp = 0,
        isAnomaly = True, score = - 0.3\<rparr>,
       \<lparr>id_field = ''2'', serviceName = ''db'', message = ''request timeout'', timestamp = 1,
        isAnomaly = True, score = - 0.6\<rparr>,
       \<lparr>id_field = ''3'', serviceName = ''db'', message = ''retry failure'', timestamp = 2,
        isAnomaly = False, score = - 0.1\<rparr>])) = 3
   \<and> (''Failures'', 2) \<in> set (getCategoryData
      [\<lparr>id_field = ''1'', serviceName = ''auth'', message = ''Login FAILED'', timestamp = 0,
        isAnomaly = True, score = - 0.3\<rparr>,
       \<lparr>id_field = ''2'', serviceName = ''db'', message = ''request timeout'', timestamp = 1,
        isAnomaly = True, score = - 0.6\<rparr>,
       \<lparr>id_field = ''3'', serviceName = ''db'', message = ''retry failure'', timestamp = 2,
        isAnomaly = False, score = - 0.1\<rparr>])"
proof -
  let ?logs = "[\<lparr>id_field = ''1'', serviceName = ''auth'', message = ''Login FAILED'',
        timestamp = 0, isAnomaly = True, score = - 0.3\<rparr>,
       \<lparr>id_field = ''2'', serviceName = ''db'', message = ''request timeout'', timestamp = 1,
        isAnomaly = True, score = - 0.6\<rparr>,
       \<lparr>id_field = ''3'', serviceName = ''db'', message = ''retry failure'', timestamp = 2,
        isAnomaly = False, score = - 0.1\<rparr>]"
  have c: "category_of ''Login FAILED'' = ''Failures''"
      "category_of ''request timeout'' = ''Timeouts''"
      "category_of ''retry failure'' = ''Failures''"
    by (simp_all add: eval_category)
  show ?thesis
    using C9_category_counts_sum [of ?logs "''Failures''" 2] by (simp add: c)
qed

section \<open>The cross-filter\<close>

text \<open>
  C10: a category name that is none of \<open>Errors\<close>, \<open>Timeouts\<close>, \<open>Connection Issues\<close>,
  \<open>Failures\<close> and \<open>Other\<close> selects no record at all.
\<close>

theorem C10_unknown_category_empty:
  "category \<notin> {''Errors'', ''Timeouts'', ''Connection Issues'', ''Failures'', ''Other''} \<Longrightarrow>
     handleCategoryClick category logs = []"
  by (simp add: handleCategoryClick_def Let_def)

theorem C10_unknown_category_empty_witness:
  "''Warnings'' \<notin> {''Errors'', ''Timeouts'', ''Connection Issues'', ''Failures'', ''Other''}
   \<and> handleCategoryClick ''Warnings''
        [\<lparr>id_field = ''1'', serviceName = ''auth'', message = ''warning: disk almost full'',
          timestamp = 0, isAnomaly = True, score = - 0.3\<rparr>] = []"
proof -
  have h: "''Warnings'' \<notin> {''Errors'', ''Timeouts'', ''Connection Issues'', ''Failures'', ''Other''}"
    by simp
  show ?thesis
    using h C10_unknown_category_empty [OF h] by simp
qed

text \<open>
  What the category filter and the category aggregate agree on: a click on \<open>Errors\<close>
  or on \<open>Other\<close> selects exactly the records counted in that bucket, and a click on
  any category selects at least the records counted in its bucket.
\<close>

lemma handleCategoryClick_Errors:
  "handleCategoryClick ''Errors'' logs
     = filter (\<lambda>r. category_of (message r) = ''Errors'') logs"
  unfolding handleCategoryClick_def
  by (rule filter_cong) (simp_all add: category_of_def Let_def)

lemma handleCategoryClick_Other:
  "handleCategoryClick ''Other'' logs
     = filter (\<lambda>r. category_of (message r) = ''Other'') logs"
  unfolding handleCategoryClick_def
  by (rule filter_cong) (simp_all add: category_of_def Let_def)

lemma handleCategoryClick_superset:
  "set (filter (\<lambda>r. category_of (message r) = c) logs) \<subseteq> set (handleCategoryClick c logs)"
proof -
  have "r \<in> set (handleCategoryClick c logs)"
    if r: "r \<in> set logs" "category_of (message r) = c" for r
  proof -
    consider "c = ''Errors''" | "c = ''Timeouts''" | "c = ''Connection Issues''"
      | "c = ''Failures''" | "c = ''Other''"
      using category_of_range [of "message r"] r(2) by blast
    then show ?thesis
    proof cases
      case 1 with r show ?thesis
        by (simp add: handleCategoryClick_def category_of_def Let_def split: if_splits)
    next
      case 2 with r show ?thesis
        by (simp add: handleCategoryClick_def category_of_def Let_def split: if_splits)
    next
      case 3 with r show ?thesis
        by (simp add: handleCategoryClick_def category_of_def Let_def split: if_splits)
    next
      case 4 with r show ?thesis
        by (simp add: handleCategoryClick_def category_of_def Let_def split: if_splits)
    next
      case 5 with r show ?thesis
        by (simp add: handleCategoryClick_def category_of_def Let_def split: if_splits)
    qed
  qed
  then show ?thesis by auto
qed

text \<open>
  C1, evaluated on two records that both mention \<open>connection\<close>, the first one also
  \<open>error\<close>: the category aggregate counts the first record under \<open>Errors\<close> and reports
  one record for \<open>Connection Issues\<close>, while a click on \<open>Connection Issues\<close> selects
  both records.
\<close>

theorem C1_category_filter_disagrees:
  "getCategoryData
     [\<lparr>id_field = ''1'', serviceName = ''api'', message = ''connection error occurred'',
       timestamp = 0, isAnomaly = True, score = - 0.6\<rparr>,
      \<lparr>id_field = ''2'', serviceName = ''api'', message = ''connection lost'',
       timestamp = 1, isAnomaly = True, score = - 0.3\<rparr>]
     = [(''Errors'', 1), (''Connection Issues'', 1)]
   \<and> handleCategoryClick ''Connection Issues''
     [\<lparr>id_field = ''1'', serviceName = ''api'', message = ''connection error occurred'',
       timestamp = 0, isAnomaly = True, score = - 0.6\<rparr>,
      \<lparr>id_field = ''2'', serviceName = ''api'', message = ''connection lost'',
       timestamp = 1, isAnomaly = True, score = - 0.3\<rparr>]
     = [\<lparr>id_field = ''1'', serviceName = ''api'', message = ''connection error occurred'',
       timestamp = 0, isAnomaly = True, score = - 0.6\<rparr>,
      \<lparr>id_field = ''2'', serviceName = ''api'', message = ''connection lost'',
       timestamp = 1, isAnomaly = True, score = - 0.3\<rparr>]"
proof -
  have c: "category_of ''connection error occurred'' = ''Errors''"
      "category_of ''connection lost'' = ''Connection Issues''"
    by (simp_all add: eval_category)
  have "getCategoryData
     [\<lparr>id_field = ''1'', serviceName = ''api'', message = ''connection error occurred'',
       timestamp = 0, isAnomaly = True, score = - 0.6\<rparr>,
      \<lparr>id_field = ''2'', serviceName = ''api'', message = ''connection lost'',
       timestamp = 1, isAnomaly = True, score = - 0.3\<rparr>]
     = [(''Errors'', 1), (''Connection Issues'', 1)]"
    by (simp add: getCategoryData_def c eval_object)
  then show ?thesis
    by (simp add: handleCategoryClick_def toLowerCase_def lower_char_def)
qed

section \<open>The end-to-end scenario\<close>

text \<open>
  C2 as the claim states it fails: the third record, of score \<open>-0.1\<close>, is below the
  threshold \<open>-0.05\<close> and so its tier is moderate, not low.
\<close>

theorem C2_scenario_counterexample:
  "[level (getSeverity (- 0.6) True), level (getSeverity 0.2 False),
    level (getSeverity (- 0.1) True)] = [critical, normal, moderate]
   \<and> [level (getSeverity (- 0.6) True), level (getSeverity 0.2 False),
       level (getSeverity (- 0.1) True)] \<noteq> [critical, normal, low]"
  by (simp add: level_getSeverity)

text \<open>
  C2, amended: for the three records of the scenario, whatever their identifiers,
  timestamps and anomaly flags, the tiers are critical, normal and moderate; the category
  aggregate is \<open>Errors\<close> 1, \<open>Other\<close> 1, \<open>Connection Issues\<close> 1; the service
  aggregate is \<open>auth\<close> 2, \<open>billing\<close> 1.
\<close>

theorem C2_scenario:
  "map (\<lambda>r. level (getSeverity (score r) (isAnomaly r)))
     [\<lparr>id_field = i1, serviceName = ''auth'', message = ''fatal exception in handler'',
       timestamp = t1, isAnomaly = a1, score = - 0.6\<rparr>,
      \<lparr>id_field = i2, serviceName = ''auth'', message = ''ok'',
       timestamp = t2, isAnomaly = a2, score = 0.2\<rparr>,
      \<lparr>id_field = i3, serviceName = ''billing'', message = ''connection unavailable'',
       timestamp = t3, isAnomaly = a3, score = - 0.1\<rparr>]
     = [critical, normal, moderate]
   \<and> getCategoryData
     [\<lparr>id_field = i1, serviceName = ''auth'', message = ''fatal exception in handler'',
       timestamp = t1, isAnomaly = a1, score = - 0.6\<rparr>,
      \<lparr>id_field = i2, serviceName = ''auth'', message = ''ok'',
       timestamp = t2, isAnomaly = a2, score = 0.2\<rparr>,
      \<lparr>id_field = i3, serviceName = ''billing'', message = ''connection unavailable'',
       timestamp = t3, isAnomaly = a3, score = - 0.1\<rparr>]
     = [(''Errors'', 1), (''Other'', 1), (''Connection Issues'', 1)]
   \<and> getServiceData
     [\<lparr>id_field = i1, serviceName = ''auth'', message = ''fatal exception in handler'',
       timestamp = t1, isAnomaly = a1, score = - 0.6\<rparr>,
      \<lparr>id_field = i2, serviceName = ''auth'', message = ''ok'',
       timestamp = t2, isAnomaly = a2, score = 0.2\<rparr>,
      \<lparr>id_field = i3, serviceName = ''billing'', message = ''connection unavailable'',
       timestamp = t3, isAnomaly = a3, score = - 0.1\<rparr>]
     = [(''auth'', 2), (''billing'', 1)]"
proof -
  have c: "category_of ''fatal exception in handler'' = ''Errors''"
      "category_of ''ok'' = ''Other''"
      "category_of ''connection unavailable'' = ''Connection Issues''"
    by (simp_all add: eval_category)
  show ?thesis
    by (simp add: level_getSeverity getCategoryData_def getServiceData_def c eval_object
        eval_array)
qed

section \<open>Sorting and slicing\<close>

lemma insert_sorted_insort_key:
  "(\<forall>y\<in>set ys. (SortCompare c x y \<le> 0) = (f x \<le> f y)) \<Longrightarrow>
     insert_sorted c x ys = insort_key f x ys"
  by (induction ys) simp_all

lemma Array_sort_sort_key:
  "(\<forall>x\<in>set xs. \<forall>y\<in>set xs. (SortCompare c x y \<le> 0) = (f x \<le> f y)) \<Longrightarrow>
     Array_sort c xs = sort_key f xs"
proof (induction xs)
  case Nil
  then show ?case by (simp add: Array_sort_def)
next
  case (Cons x xs)
  then have "Array_sort c xs = sort_key f xs" by simp
  moreover have "insert_sorted c x (sort_key f xs) = insort_key f x (sort_key f xs)"
    using Cons.prems by (intro insert_sorted_insort_key) simp
  ultimately show ?case by (simp add: Array_sort_def)
qed

lemma insort_key_stable:
  assumes "sorted_wrt (\<lambda>a b. f a < f b \<or> (f a = f b \<and> B a b)) ys"
    and "\<forall>y\<in>set ys. B x y"
  shows "sorted_wrt (\<lambda>a b. f a < f b \<or> (f a = f b \<and> B a b)) (insort_key f x ys)"
  using assms
proof (induction ys)
  case Nil
  then show ?case by simp
next
  case (Cons y ys)
  show ?case
  proof (cases "f x \<le> f y")
    case True
    have "f x < f z \<or> (f x = f z \<and> B x z)" if "z \<in> set (y # ys)" for z
    proof -
      have "f y \<le> f z" using that Cons.prems(1) by auto
      with True have "f x \<le> f z" by simp
      moreover have "B x z" using that Cons.prems(2) by auto
      ultimately show ?thesis by auto
    qed
    with True Cons.prems(1) show ?thesis by simp
  next
    case False
    then have "f y < f x" by simp
    moreover have "sorted_wrt (\<lambda>a b. f a < f b \<or> (f a = f b \<and> B a b)) (insort_key f x ys)"
      using Cons by simp
    ultimately show ?thesis using False Cons.prems(1) by (auto simp: set_insort_key)
  qed
qed

lemma sort_key_stable_wrt:
  "sorted_wrt B xs \<Longrightarrow>
     sorted_wrt (\<lambda>a b. f a < f b \<or> (f a = f b \<and> B a b)) (sort_key f xs)"
  for f :: "'a \<Rightarrow> 'b::linorder"
proof (induction xs)
  case Nil
  then show ?case by simp
next
  case (Cons x xs)
  then show ?case by (simp add: insort_key_stable)
qed

lemma sorted_wrt_take_drop:
  "sorted_wrt R xs \<Longrightarrow> a \<in> set (take n xs) \<Longrightarrow> b \<in> set (drop n xs) \<Longrightarrow> R a b"
  using sorted_wrt_append [of R "take n xs" "drop n xs"] by simp

lemma Array_slice_take: "Array_slice 0 (Some (int n)) xs = take n xs"
  by (simp add: Array_slice_def Let_def min_def)

lemma Array_slice_last: "Array_slice (- int n) None xs = drop (length xs - n) xs"
  if "0 < n"
  using that by (auto simp: Array_slice_def Let_def max_def nat_diff_distrib')

section \<open>Array indices\<close>

lemma digits_value_snoc: "digits_value (s @ [c]) = 10 * digits_value s + (of_char c - 48)"
  by (simp add: digits_value_def)

lemma foldl_digits_ge: "n \<le> foldl (\<lambda>n c. 10 * n + (of_char c - 48)) n s" for n :: nat
proof (induction s arbitrary: n)
  case Nil
  show ?case by simp
next
  case (Cons c s)
  have "n \<le> 10 * n + (of_char c - 48)" by simp
  also have "\<dots> \<le> foldl (\<lambda>n c. 10 * n + (of_char c - 48)) (10 * n + (of_char c - 48)) s"
    by (rule Cons.IH)
  finally show ?case by simp
qed

lemma is_digit_zero: "is_digit c \<Longrightarrow> (of_char c :: nat) - 48 = 0 \<Longrightarrow> c = CHR ''0''"
proof -
  assume "is_digit c" "(of_char c :: nat) - 48 = 0"
  then have "(of_char c :: nat) = 48"
    unfolding is_digit_def Let_def by linarith
  moreover have "(of_char CHR ''0'' :: nat) = 48" by simp
  ultimately have "(of_char c :: nat) = of_char CHR ''0''" by (rule trans_sym)
  then show ?thesis by (simp only: of_char_eq_iff)
qed

lemma is_digit_inj:
  "is_digit c \<Longrightarrow> is_digit d \<Longrightarrow> (of_char c :: nat) - 48 = of_char d - 48 \<Longrightarrow> c = d"
proof -
  assume "is_digit c" "is_digit d" "(of_char c :: nat) - 48 = of_char d - 48"
  then have "(of_char c :: nat) = of_char d"
    unfolding is_digit_def Let_def by linarith
  then show ?thesis by (simp only: of_char_eq_iff)
qed

lemma is_digit_less: "is_digit c \<Longrightarrow> (of_char c :: nat) - 48 < 10"
  unfolding is_digit_def Let_def by linarith

lemma digit_string_pos: "digit_string s \<Longrightarrow> s \<noteq> [] \<Longrightarrow> 0 < digits_value s"
proof -
  assume ds: "digit_string s" and ne: "s \<noteq> []"
  then obtain c t where s: "s = c # t" by (cases s) auto
  with ds have "is_digit c" "c \<noteq> CHR ''0''" by (simp_all add: digit_string_def)
  then have "0 < (of_char c :: nat) - 48" using is_digit_zero [of c] by blast
  also have "\<dots> \<le> digits_value s"
    using foldl_digits_ge [of "of_char c - 48" t] by (simp add: s digits_value_def)
  finally show ?thesis .
qed

lemma digit_string_butlast: "digit_string (s @ [c]) \<Longrightarrow> digit_string s \<and> is_digit c"
  by (cases s) (auto simp: digit_string_def)

lemma digit_string_inj:
  "digit_string s \<Longrightarrow> digit_string t \<Longrightarrow> digits_value s = digits_value t \<Longrightarrow> s = t"
proof (induction s arbitrary: t rule: rev_induct)
  case Nil
  then show ?case using digit_string_pos [of t] by (auto simp: digits_value_def)
next
  case (snoc c s)
  have pos: "0 < digits_value (s @ [c])" using snoc.prems(1) by (simp add: digit_string_pos)
  show ?case
  proof (cases t rule: rev_cases)
    case Nil
    with snoc.prems(3) pos show ?thesis by (simp add: digits_value_def)
  next
    case (snoc t' d)
    note t = this
    have sc: "digit_string s" "is_digit c"
      using \<open>digit_string (s @ [c])\<close> digit_string_butlast by blast+
    have td: "digit_string t'" "is_digit d"
      using \<open>digit_string t\<close> digit_string_butlast t by blast+
    have eq: "10 * digits_value s + (of_char c - 48) = 10 * digits_value t' + (of_char d - 48)"
      using \<open>digits_value (s @ [c]) = digits_value t\<close> by (simp add: t digits_value_snoc)
    have lt: "(of_char c :: nat) - 48 < 10" "(of_char d :: nat) - 48 < 10"
      using sc td by (simp_all add: is_digit_less)
    have v: "digits_value s = digits_value t'"
      using eq lt by linarith
    have "(of_char c :: nat) - 48 = of_char d - 48"
      using eq v by simp
    then have "c = d" using sc(2) td(2) by (rule is_digit_inj [rotated 2])
    moreover have "s = t'" using sc(1) td(1) v by (rule snoc.IH)
    ultimately have "s = t'" "c = d" by simp_all
    then show ?thesis by (simp add: t)
  qed
qed

lemma array_index_cases: "is_array_index s \<Longrightarrow> s = ''0'' \<or> (digit_string s \<and> s \<noteq> [])"
  by (auto simp: is_array_index_def digit_string_def)

lemma array_index_inj:
  assumes "is_array_index s" "is_array_index t" "digits_value s = digits_value t"
  shows "s = t"
proof -
  have z: "digits_value ''0'' = 0" by (simp add: digits_value_def)
  consider "s = ''0''" "t = ''0''" | "s = ''0''" "digit_string t" "t \<noteq> []"
    | "digit_string s" "s \<noteq> []" "t = ''0''" | "digit_string s" "digit_string t"
    using assms(1,2) array_index_cases by blast
  then show ?thesis
  proof cases
    case 1
    then show ?thesis by simp
  next
    case 2
    then show ?thesis using assms(3) digit_string_pos [of t] z by simp
  next
    case 3
    then show ?thesis using assms(3) digit_string_pos [of s] z by simp
  next
    case 4
    then show ?thesis using assms(3) digit_string_inj by blast
  qed
qed

section \<open>The enumeration order of the grouped keys\<close>

lemma first_position_less: "k \<in> set ks \<Longrightarrow> first_position k ks < length ks"
  by (induction ks) (auto simp: first_position_def)

lemma first_position_append: "k \<in> set ks \<Longrightarrow> first_position k (ks @ ks') = first_position k ks"
  by (simp add: first_position_def)

lemma first_position_new: "k \<notin> set ks \<Longrightarrow> first_position k (ks @ [k]) = length ks"
  by (induction ks) (auto simp: first_position_def)

lemma keys_grouped: "fst ` set (foldl increment [] ks) = set ks"
  using keys_foldl_increment [of "[]" ks] by simp

lemma grouped_keys_order:
  "sorted_wrt (\<lambda>a b. first_position a ks < first_position b ks)
     (map fst (foldl increment [] ks))"
proof (induction ks rule: rev_induct)
  case Nil
  show ?case by simp
next
  case (snoc k ks)
  let ?keys = "map fst (foldl increment [] ks)"
  have keys: "fst ` set (foldl increment [] ks) = set ks" by (rule keys_grouped)
  have old: "sorted_wrt (\<lambda>a b. first_position a (ks @ [k]) < first_position b (ks @ [k])) ?keys"
    using snoc.IH
    by (rule sorted_wrt_mono_rel [rotated]) (simp add: keys first_position_append)
  show ?case
  proof (cases "k \<in> set ks")
    case True
    then have "map fst (foldl increment [] (ks @ [k])) = ?keys"
      by (simp add: increment_update update_keys keys)
    with old show ?thesis by simp
  next
    case False
    then have "map fst (foldl increment [] (ks @ [k])) = ?keys @ [k]"
      by (simp add: increment_update update_keys keys)
    moreover have "first_position a (ks @ [k]) < first_position k (ks @ [k])"
      if "a \<in> set ?keys" for a
      using that False keys
      by (simp add: first_position_append first_position_new first_position_less)
    ultimately show ?thesis using old by (simp add: sorted_wrt_append)
  qed
qed

lemma Object_entries_order:
  assumes "distinct (map fst obj)"
    and "sorted_wrt (\<lambda>a b. first_position a ks < first_position b ks) (map fst obj)"
  shows "sorted_wrt (\<lambda>a b. enumerated_before ks (fst a) (fst b)) (Object_entries obj)"
proof -
  let ?idx = "filter (\<lambda>p. is_array_index (fst p)) obj"
  let ?str = "filter (\<lambda>p. \<not> is_array_index (fst p)) obj"
  let ?sorted = "sort_key (\<lambda>p. digits_value (fst p)) ?idx"
  have d: "distinct (map fst ?idx)" using assms(1) by (simp add: distinct_map_filter)
  have inj: "inj_on (\<lambda>p. digits_value (fst p)) (set ?idx)"
  proof (rule inj_onI)
    fix p q
    assume p: "p \<in> set ?idx" and q: "q \<in> set ?idx"
      and "digits_value (fst p) = digits_value (fst q)"
    then have "fst p = fst q" by (simp add: array_index_inj)
    moreover have "inj_on fst (set ?idx)" using d by (simp add: distinct_map)
    ultimately show "p = q" using p q by (meson inj_onD)
  qed
  have "distinct ?idx" using d by (simp add: distinct_map)
  then have "distinct (map (\<lambda>p. digits_value (fst p)) ?sorted)"
    using inj by (simp add: distinct_map)
  moreover have "sorted (map (\<lambda>p. digits_value (fst p)) ?sorted)"
    by (rule sorted_sort_key)
  ultimately have "sorted_wrt (<) (map (\<lambda>p. digits_value (fst p)) ?sorted)"
    by (simp add: strict_sorted_iff)
  then have "sorted_wrt (\<lambda>a b. digits_value (fst a) < digits_value (fst b)) ?sorted"
    by (simp add: sorted_wrt_map)
  then have idx: "sorted_wrt (\<lambda>a b. enumerated_before ks (fst a) (fst b)) ?sorted"
    by (rule sorted_wrt_mono_rel [rotated]) (simp add: enumerated_before_def)
  have "sorted_wrt (\<lambda>a b. first_position (fst a) ks < first_position (fst b) ks) obj"
    using assms(2) by (simp add: sorted_wrt_map)
  then have "sorted_wrt (\<lambda>a b. first_position (fst a) ks < first_position (fst b) ks) ?str"
    by (rule sorted_wrt_filter)
  then have str: "sorted_wrt (\<lambda>a b. enumerated_before ks (fst a) (fst b)) ?str"
    by (rule sorted_wrt_mono_rel [rotated]) (simp add: enumerated_before_def)
  have "enumerated_before ks (fst a) (fst b)" if "a \<in> set ?sorted" "b \<in> set ?str" for a b
    using that by (simp add: enumerated_before_def)
  with idx str show ?thesis by (simp add: Object_entries_def sorted_wrt_append)
qed

lemma service_sort:
  "Array_sort (\<lambda>a b. Some (int (snd b) - int (snd a))) xs = sort_key (\<lambda>p. - int (snd p)) xs"
  for xs :: "(string \<times> nat) list"
  by (rule Array_sort_sort_key) (simp add: SortCompare_def)

lemma getServiceData_eq:
  "getServiceData logs =
     take 5 (sort_key (\<lambda>p. - int (snd p))
       (Object_entries (foldl increment [] (map serviceName logs))))"
  using Array_slice_take [of 5]
  by (simp add: getServiceData_def service_sort foldl_map)

section \<open>The service aggregate\<close>

text \<open>
  C6 as the claim states it fails on numeric-looking service names: for the services
  \<open>10\<close> and \<open>2\<close>, one record each in that order, the bucket of \<open>2\<close> comes first
  although \<open>10\<close> was encountered first.
\<close>

theorem C6_numeric_names_counterexample:
  "getServiceData numeric_services = [(''2'', 1), (''10'', 1)]
   \<and> first_position ''10'' (map serviceName numeric_services)
       < first_position ''2'' (map serviceName numeric_services)
   \<and> \<not> first_encounter_ties (map serviceName numeric_services)
         (getServiceData numeric_services)"
proof -
  have g: "getServiceData numeric_services = [(''2'', 1), (''10'', 1)]"
    by (simp add: getServiceData_def numeric_services_def sample_entry_def eval_object
        eval_array)
  have p: "first_position ''10'' (map serviceName numeric_services) = 0"
     "first_position ''2'' (map serviceName numeric_services) = 1"
    by (simp_all add: first_position_def numeric_services_def sample_entry_def)
  show ?thesis by (simp add: g p first_encounter_ties_def)
qed

text \<open>
  C6, amended: for records whose service names are not names inherited from
  \<open>Object.prototype\<close>, the service aggregate has at most 5 buckets, sorted by descending
  count, one bucket per service, each count being the number of the records of that
  service (the length of what a click on the service selects); a service without a bucket
  exists only when 5 buckets are returned, and it has no more records than the service of
  any bucket returned. Buckets of equal count appear in the enumeration order of the
  grouping object: service names that are array indices first, in ascending numeric
  order, then the other names in the order of their first occurrence in the input. When
  no service name is an array index, buckets of equal count appear in the order in which
  their services were first encountered.
\<close>

theorem C6_getServiceData_order:
  assumes "own_property_names (map serviceName logs)"
  shows "length (getServiceData logs) \<le> 5
    \<and> sorted_wrt (\<lambda>a b. snd b \<le> snd a) (getServiceData logs)
    \<and> distinct (map fst (getServiceData logs))
    \<and> (\<forall>b\<in>set (getServiceData logs).
          snd b = length (handleServiceClick (fst b) logs) \<and> 0 < snd b)
    \<and> (\<forall>r\<in>set logs.
          serviceName r \<in> fst ` set (getServiceData logs)
          \<or> (length (getServiceData logs) = 5
              \<and> (\<forall>b\<in>set (getServiceData logs).
                    length (handleServiceClick (serviceName r) logs) \<le> snd b)))
    \<and> enumeration_ties (map serviceName logs) (getServiceData logs)
    \<and> (no_array_index (map serviceName logs) \<longrightarrow>
         first_encounter_ties (map serviceName logs) (getServiceData logs))"
proof -
  let ?ks = "map serviceName logs"
  let ?obj = "foldl increment [] ?ks"
  let ?f = "\<lambda>p :: string \<times> nat. - int (snd p)"
  let ?B = "\<lambda>a b :: string \<times> nat. enumerated_before ?ks (fst a) (fst b)"
  let ?all = "sort_key ?f (Object_entries ?obj)"
  have g: "getServiceData logs = take 5 ?all" by (rule getServiceData_eq)
  have dist: "distinct (map fst ?obj)" by (simp add: distinct_foldl_increment)
  have "sorted_wrt ?B (Object_entries ?obj)"
    using dist grouped_keys_order by (rule Object_entries_order)
  then have "sorted_wrt (\<lambda>a b. ?f a < ?f b \<or> (?f a = ?f b \<and> ?B a b)) ?all"
    by (rule sort_key_stable_wrt)
  then have st: "sorted_wrt (\<lambda>a b. ?f a < ?f b \<or> (?f a = ?f b \<and> ?B a b)) (take 5 ?all)"
    by (rule sorted_wrt_take)
  have 1: "length (getServiceData logs) \<le> 5" by (simp add: g)
  have 2: "sorted_wrt (\<lambda>a b. snd b \<le> snd a) (getServiceData logs)"
    unfolding g using st by (rule sorted_wrt_mono_rel [rotated]) auto
  have 5: "sorted_wrt (\<lambda>a b. if snd a = snd b then ?B a b else True) (getServiceData logs)"
    unfolding g using st by (rule sorted_wrt_mono_rel [rotated]) auto
  then have ties: "enumeration_ties ?ks (getServiceData logs)"
    by (simp add: enumeration_ties_def)
  have "distinct (map fst ?all)"
  proof -
    have "mset (map fst ?all) = mset (map fst ?obj)"
      by (simp add: mset_Object_entries)
    then show ?thesis using dist by (metis mset_eq_imp_distinct_iff)
  qed
  then have 3: "distinct (map fst (getServiceData logs))"
    unfolding g by (simp add: take_map [symmetric] distinct_take del: take_map)
  have 4: "snd b = length (handleServiceClick (fst b) logs) \<and> 0 < snd b"
    if "b \<in> set (getServiceData logs)" for b
  proof -
    obtain k n where b: "b = (k, n)" by (cases b)
    have "b \<in> set ?all" using that unfolding g by (rule in_set_takeD)
    then have "(k, n) \<in> set ?obj" by (simp add: set_Object_entries b)
    then have "k \<in> set ?ks" "n = count_list ?ks k"
      by (simp_all only: entry_grouped)
    then show ?thesis
      using count_list_0_iff [of ?ks k]
      by (simp add: b count_list_map handleServiceClick_def del: count_list_0_iff)
  qed
  have top: "serviceName r \<in> fst ` set (getServiceData logs)
      \<or> (length (getServiceData logs) = 5
          \<and> (\<forall>b\<in>set (getServiceData logs).
                length (handleServiceClick (serviceName r) logs) \<le> snd b))"
    if r: "r \<in> set logs" for r
  proof (cases "serviceName r \<in> fst ` set (getServiceData logs)")
    case True
    then show ?thesis by simp
  next
    case False
    let ?n = "count_list ?ks (serviceName r)"
    have "(serviceName r, ?n) \<in> set ?obj" using r by (simp add: entry_grouped)
    then have p: "(serviceName r, ?n) \<in> set ?all" by (simp add: set_Object_entries)
    have "set ?all = set (take 5 ?all) \<union> set (drop 5 ?all)"
      by (metis append_take_drop_id set_append)
    with p False have pd: "(serviceName r, ?n) \<in> set (drop 5 ?all)"
      unfolding g by force
    then have "drop 5 ?all \<noteq> []" by auto
    then have len: "length (getServiceData logs) = 5" by (simp add: g)
    have "?n \<le> snd b" if "b \<in> set (getServiceData logs)" for b
    proof -
      have "?f b < ?f (serviceName r, ?n)
          \<or> (?f b = ?f (serviceName r, ?n) \<and> ?B b (serviceName r, ?n))"
        using \<open>sorted_wrt (\<lambda>a b. ?f a < ?f b \<or> (?f a = ?f b \<and> ?B a b)) ?all\<close>
          that [unfolded g] pd
        by (rule sorted_wrt_take_drop)
      then show ?thesis by auto
    qed
    with len show ?thesis by (simp add: count_list_map handleServiceClick_def)
  qed
  have mem: "fst b \<in> set ?ks" if "b \<in> set (getServiceData logs)" for b
  proof -
    have "b \<in> set ?all" using that unfolding g by (rule in_set_takeD)
    then have "fst b \<in> fst ` set ?obj" by (simp add: set_Object_entries)
    then show ?thesis by (simp only: keys_grouped)
  qed
  have 6: "sorted_wrt
           (\<lambda>a b. if snd a = snd b
                   then first_position (fst a) ?ks < first_position (fst b) ?ks else True)
           (getServiceData logs)"
    if plain: "no_array_index ?ks"
    using 5
  proof (rule sorted_wrt_mono_rel [rotated])
    fix a b
    assume "a \<in> set (getServiceData logs)" "b \<in> set (getServiceData logs)"
      and "if snd a = snd b then ?B a b else True"
    moreover have "\<not> is_array_index (fst a)" "\<not> is_array_index (fst b)"
      using mem [of a] mem [of b] plain \<open>a \<in> set (getServiceData logs)\<close>
        \<open>b \<in> set (getServiceData logs)\<close> unfolding no_array_index_def by blast+
    ultimately show "if snd a = snd b
        then first_position (fst a) ?ks < first_position (fst b) ?ks else True"
      by (auto simp: enumerated_before_def split: if_splits)
  qed
  from 6 have first: "no_array_index ?ks \<longrightarrow> first_encounter_ties ?ks (getServiceData logs)"
    by (simp add: first_encounter_ties_def)
  from 1 2 3 4 top ties first show ?thesis by blast
qed


theorem C6_getServiceData_order_witness:
  "own_property_names (map serviceName sample_services)
   \<and> no_array_index (map serviceName sample_services)
   \<and> getServiceData sample_services
       = [(''web'', 2), (''db'', 2), (''cache'', 1), (''auth'', 1), (''api'', 1)]
   \<and> length (getServiceData sample_services) \<le> 5
   \<and> sorted_wrt (\<lambda>a b. snd b \<le> snd a) (getServiceData sample_services)
   \<and> first_encounter_ties (map serviceName sample_services)
         (getServiceData sample_services)"
proof -
  have h1: "own_property_names (map serviceName sample_services)"
    by (simp add: own_property_names_def sample_services_def sample_entry_def
        Object_prototype_keys_def)
  have h2: "no_array_index (map serviceName sample_services)"
    by (simp add: no_array_index_def sample_services_def sample_entry_def
        is_array_index_def is_digit_def)
  have v: "getServiceData sample_services
      = [(''web'', 2), (''db'', 2), (''cache'', 1), (''auth'', 1), (''api'', 1)]"
    by (simp add: getServiceData_def sample_services_def sample_entry_def eval_object
        eval_array)
  show ?thesis
    using h1 h2 v C6_getServiceData_order [OF h1] by blast
qed

section \<open>The time series\<close>

lemma chronological_parses:
  assumes "chronological_dates key getTime logs" "r \<in> set logs"
  shows "\<exists>t. getTime (key (timestamp r)) = Some t"
proof -
  have "case (getTime (key (timestamp r)), getTime (key (timestamp r))) of
          (Some t, Some t') \<Rightarrow> t \<le> t' | _ \<Rightarrow> False"
    using assms unfolding chronological_dates_def by blast
  then show ?thesis by (cases "getTime (key (timestamp r))") simp_all
qed

lemma chronological_mono:
  assumes "chronological_dates key getTime logs" "r \<in> set logs" "r' \<in> set logs"
    and "key (timestamp r) = fst p" "key (timestamp r') = fst q"
    and "timestamp r \<le> timestamp r'"
  shows "time_of getTime p \<le> time_of getTime q"
proof -
  have "case (getTime (key (timestamp r)), getTime (key (timestamp r'))) of
          (Some t, Some t') \<Rightarrow> t \<le> t' | _ \<Rightarrow> False"
    using assms(1-3,6) unfolding chronological_dates_def by blast
  then show ?thesis using assms(4,5) by (auto simp: time_of_def split: option.splits)
qed

lemma chronological_inj:
  assumes "chronological_dates key getTime logs" "r \<in> set logs" "r' \<in> set logs"
    and "key (timestamp r) = fst p" "key (timestamp r') = fst q"
    and "time_of getTime p = time_of getTime q"
  shows "fst p = fst q"
proof -
  obtain t t' where t: "getTime (key (timestamp r)) = Some t"
      "getTime (key (timestamp r')) = Some t'"
    using assms(1-3) chronological_parses by blast
  with assms(4-6) have "getTime (key (timestamp r)) = getTime (key (timestamp r'))"
    by (simp add: time_of_def)
  then have "key (timestamp r) = key (timestamp r')"
    using assms(1-3) unfolding chronological_dates_def by blast
  then show ?thesis using assms(4,5) by simp
qed

lemma date_sort:
  assumes "\<forall>p\<in>set xs. \<exists>t. getTime (fst p) = Some t"
  shows "Array_sort (\<lambda>a b. case (getTime (fst a), getTime (fst b)) of
                        (Some ta, Some tb) \<Rightarrow> Some (ta - tb) | _ \<Rightarrow> None) xs
         = sort_key (time_of getTime) xs"
proof (rule Array_sort_sort_key, intro ballI)
  fix x y
  assume "x \<in> set xs" "y \<in> set xs"
  then obtain tx ty where "getTime (fst x) = Some tx" "getTime (fst y) = Some ty"
    using assms by blast
  then show "(SortCompare (\<lambda>a b. case (getTime (fst a), getTime (fst b)) of
                        (Some ta, Some tb) \<Rightarrow> Some (ta - tb) | _ \<Rightarrow> None) x y \<le> 0)
        = (time_of getTime x \<le> time_of getTime y)"
    by (simp add: SortCompare_def time_of_def)
qed

lemma difference_comparefn_consistent:
  assumes "\<forall>a\<in>set xs. \<forall>b\<in>set xs. comparefn a b = Some (f a - f b)"
  shows "consistent_comparefn comparefn xs"
  unfolding consistent_comparefn_def list_all_iff
proof (intro ballI)
  fix a b c
  assume "a \<in> set xs" "b \<in> set xs" "c \<in> set xs"
  then have "comparefn a b = Some (f a - f b)" "comparefn b a = Some (f b - f a)"
      "comparefn b c = Some (f b - f c)" "comparefn a c = Some (f a - f c)"
      "comparefn a a = Some (f a - f a)"
    using assms by blast+
  then show "comparefn a b \<noteq> None
      \<and> SortCompare comparefn a a = 0
      \<and> (if SortCompare comparefn a b = 0 then SortCompare comparefn b a = 0 else True)
      \<and> (if SortCompare comparefn a b = 0 \<and> SortCompare comparefn b c = 0
           then SortCompare comparefn a c = 0 else True)
      \<and> (if SortCompare comparefn a b < 0 \<and> SortCompare comparefn b c < 0
           then SortCompare comparefn a c < 0 else True)
      \<and> (if 0 < SortCompare comparefn a b \<and> 0 < SortCompare comparefn b c
           then 0 < SortCompare comparefn a c else True)"
    by (simp add: SortCompare_def)
qed

text \<open>The comparison function of \<open>getServiceData\<close> is consistent on every array.\<close>

lemma service_comparefn_consistent:
  "consistent_comparefn (\<lambda>a b. Some (int (snd b) - int (snd a))) xs"
  for xs :: "(string \<times> nat) list"
  by (rule difference_comparefn_consistent [where f = "\<lambda>p. - int (snd p)"]) simp

lemma date_comparefn_consistent:
  fixes xs :: "(string \<times> nat) list"
  assumes "\<forall>p\<in>set xs. \<exists>t. getTime (fst p) = Some t"
  shows "consistent_comparefn
           (\<lambda>a b. case (getTime (fst a), getTime (fst b)) of
                    (Some ta, Some tb) \<Rightarrow> Some (ta - tb) | _ \<Rightarrow> None) xs"
proof (rule difference_comparefn_consistent [where f = "time_of getTime"], intro ballI)
  fix a b
  assume "a \<in> set xs" "b \<in> set xs"
  then obtain ta tb where "getTime (fst a) = Some ta" "getTime (fst b) = Some tb"
    using assms by blast
  then show "(case (getTime (fst a), getTime (fst b)) of
                (Some ta, Some tb) \<Rightarrow> Some (ta - tb) | _ \<Rightarrow> None)
      = Some (time_of getTime a - time_of getTime b)"
    by (simp add: time_of_def)
qed

text \<open>
  Where the time series is right: on a platform that reads its local date strings back
  chronologically, the comparison function is consistent and the result is the last 10 of
  the buckets sorted by the time their date strings are read back as.
\<close>

lemma getTimeSeriesData_eq:
  assumes env: "chronological_dates key getTime logs"
  shows "getTimeSeriesData key getTime logs
    = Some (drop (length (Object_entries
                   (foldl increment [] (map (\<lambda>r. key (timestamp r)) logs))) - 10)
         (sort_key (time_of getTime)
            (Object_entries (foldl increment [] (map (\<lambda>r. key (timestamp r)) logs)))))"
proof -
  let ?ks = "map (\<lambda>r. key (timestamp r)) logs"
  let ?obj = "foldl increment [] ?ks"
  let ?all = "sort_key (time_of getTime) (Object_entries ?obj)"
  have obj: "foldl (\<lambda>acc log. increment acc (key (timestamp log))) [] logs = ?obj"
    by (simp add: foldl_map)
  have keys: "fst ` set ?obj = set ?ks" by (rule keys_grouped)
  have parses: "\<forall>p\<in>set (Object_entries ?obj). \<exists>t. getTime (fst p) = Some t"
  proof
    fix p assume "p \<in> set (Object_entries ?obj)"
    then have "fst p \<in> set ?ks" using keys by (auto simp: set_Object_entries)
    then show "\<exists>t. getTime (fst p) = Some t"
      using env chronological_parses by auto
  qed
  have "getTimeSeriesData key getTime logs = Some (Array_slice (- 10) None
      (Array_sort (\<lambda>a b. case (getTime (fst a), getTime (fst b)) of
                        (Some ta, Some tb) \<Rightarrow> Some (ta - tb) | _ \<Rightarrow> None)
         (Object_entries ?obj)))"
    unfolding getTimeSeriesData_def Let_def obj
    by (simp only: date_comparefn_consistent [OF parses] if_True)
  also have "\<dots> = Some (Array_slice (- 10) None ?all)"
    by (simp only: date_sort [OF parses])
  also have "\<dots> = Some (drop (length ?all - 10) ?all)"
    using Array_slice_last [of 10 ?all] by simp
  finally show ?thesis by simp
qed

text \<open>
  The buckets then are at most 10, in ascending chronological order of their dates, one
  bucket per local date, each count being the number of the records of that date; and the
  buckets kept are the most recent dates: a date without a bucket exists only when 10
  buckets are returned, and it is before the date of every bucket returned.
\<close>

lemma getTimeSeriesData_chronological:
  assumes env: "chronological_dates key getTime logs"
    and res: "getTimeSeriesData key getTime logs = Some res"
  shows "length res \<le> 10
    \<and> sorted_wrt (\<lambda>a b. date_before key logs (fst a) (fst b)) res
    \<and> distinct (map fst res)
    \<and> (\<forall>b\<in>set res.
          snd b = length (filter (\<lambda>r. key (timestamp r) = fst b) logs) \<and> 0 < snd b)
    \<and> (\<forall>r\<in>set logs.
          key (timestamp r) \<in> fst ` set res
          \<or> (length res = 10
              \<and> (\<forall>b\<in>set res. date_before key logs (key (timestamp r)) (fst b))))"
proof -
  let ?ks = "map (\<lambda>r. key (timestamp r)) logs"
  let ?obj = "foldl increment [] ?ks"
  let ?f = "time_of getTime"
  let ?all = "sort_key ?f (Object_entries ?obj)"
  have g: "res = drop (length ?all - 10) ?all"
    using getTimeSeriesData_eq [OF env] res by simp
  have keys: "fst ` set ?obj = set ?ks" by (rule keys_grouped)
  have dist: "distinct (map fst ?obj)" by (simp add: distinct_foldl_increment)
  have dall: "distinct (map fst ?all)"
  proof -
    have "mset (map fst ?all) = mset (map fst ?obj)"
      by (simp add: mset_Object_entries)
    then show ?thesis using dist by (metis mset_eq_imp_distinct_iff)
  qed
  have set_all: "set ?all = set ?obj" by (simp add: set_Object_entries)
  have member: "\<exists>r\<in>set logs. key (timestamp r) = fst p" if "p \<in> set ?all" for p
  proof -
    have "fst p \<in> set ?ks" using that keys set_all by auto
    then show ?thesis by auto
  qed
  have inj: "inj_on ?f (set ?all)"
  proof (rule inj_onI)
    fix p q assume p: "p \<in> set ?all" and q: "q \<in> set ?all" and eq: "?f p = ?f q"
    obtain r r' where r: "r \<in> set logs" "key (timestamp r) = fst p"
      and r': "r' \<in> set logs" "key (timestamp r') = fst q"
      using member p q by blast
    have "fst p = fst q"
      using env r(1) r'(1) r(2) r'(2) eq by (rule chronological_inj)
    moreover have "inj_on fst (set ?all)" using dall by (simp add: distinct_map)
    ultimately show "p = q" using p q by (meson inj_onD)
  qed
  have "distinct ?all" using dall by (simp add: distinct_map)
  then have "distinct (map ?f ?all)" using inj by (simp add: distinct_map)
  moreover have "sorted (map ?f ?all)" by (rule sorted_sort_key)
  ultimately have "sorted_wrt (<) (map ?f ?all)" by (simp add: strict_sorted_iff)
  then have strict: "sorted_wrt (\<lambda>a b. ?f a < ?f b) ?all" by (simp add: sorted_wrt_map)
  have before: "date_before key logs (fst a) (fst b)"
    if "a \<in> set ?all" "b \<in> set ?all" "?f a < ?f b" for a b
    unfolding date_before_def
  proof (intro ballI impI)
    fix r r' assume r: "r \<in> set logs" "r' \<in> set logs"
      and k: "key (timestamp r) = fst a \<and> key (timestamp r') = fst b"
    show "timestamp r < timestamp r'"
    proof (rule ccontr)
      assume "\<not> timestamp r < timestamp r'"
      then have "timestamp r' \<le> timestamp r" by simp
      with env r(2,1) k have "?f b \<le> ?f a"
        by (intro chronological_mono [of key getTime logs r' r]) simp_all
      with that(3) show False by simp
    qed
  qed
  have chron: "sorted_wrt (\<lambda>a b. date_before key logs (fst a) (fst b)) ?all"
    using strict by (rule sorted_wrt_mono_rel [rotated]) (rule before)
  have 1: "length res \<le> 10" by (simp add: g)
  have 2: "sorted_wrt (\<lambda>a b. date_before key logs (fst a) (fst b)) res"
    unfolding g using chron by (rule sorted_wrt_drop)
  have 3: "distinct (map fst res)"
    unfolding g using dall by (simp add: drop_map [symmetric] distinct_drop del: drop_map)
  have 4: "snd b = length (filter (\<lambda>r. key (timestamp r) = fst b) logs) \<and> 0 < snd b"
    if "b \<in> set res" for b
  proof -
    obtain k n where b: "b = (k, n)" by (cases b)
    have "b \<in> set ?all" using that unfolding g by (rule in_set_dropD)
    then have "(k, n) \<in> set ?obj" by (simp add: set_Object_entries b)
    then have "k \<in> set ?ks" "n = count_list ?ks k"
      by (simp_all only: entry_grouped)
    then show ?thesis
      using count_list_0_iff [of ?ks k]
      by (simp add: b count_list_map del: count_list_0_iff)
  qed
  have 5: "key (timestamp r) \<in> fst ` set res
      \<or> (length res = 10 \<and> (\<forall>b\<in>set res. date_before key logs (key (timestamp r)) (fst b)))"
    if r: "r \<in> set logs" for r
  proof (cases "key (timestamp r) \<in> fst ` set res")
    case True
    then show ?thesis by simp
  next
    case False
    have "key (timestamp r) \<in> fst ` set ?all" using r keys set_all by auto
    then obtain p where p: "p \<in> set ?all" "fst p = key (timestamp r)" by auto
    have "set ?all = set (take (length ?all - 10) ?all) \<union> set res"
      unfolding g by (metis append_take_drop_id set_append)
    with p False have pt: "p \<in> set (take (length ?all - 10) ?all)" by force
    then have "length ?all - 10 \<noteq> 0" by auto
    then have len: "length res = 10" by (simp add: g)
    have "date_before key logs (fst p) (fst b)" if "b \<in> set res" for b
      using chron pt that unfolding g by (rule sorted_wrt_take_drop)
    with len p show ?thesis by simp
  qed
  from 1 2 3 4 5 show ?thesis by blast
qed

text \<open>
  The assumption holds of twelve records of eleven days in the locale \<open>en-US\<close>.
\<close>

lemma sample_days_chronological:
  "chronological_dates toLocaleDateString_1970 getTime_1970 sample_days"
  by code_simp

text \<open>
  C7, evaluated in the locale \<open>en-GB\<close> on a record of 2 January 1970 and a record of
  1 February 1970: the date strings are \<open>02/01/1970\<close> and \<open>01/02/1970\<close>, the
  comparison function reads them back with the month first, and the bucket of 1 February
  comes before the bucket of 2 January.
\<close>

theorem C7_day_first_locale_order:
  "map timestamp day_first_days = [86400000, 2678400000]
   \<and> map (\<lambda>r. toLocaleDateString_en_GB (timestamp r)) day_first_days
       = [''02/01/1970'', ''01/02/1970'']
   \<and> getTimeSeriesData toLocaleDateString_en_GB getTime_month_first day_first_days
       = Some [(''01/02/1970'', 1), (''02/01/1970'', 1)]"
proof -
  have ts: "map timestamp day_first_days = [86400000, 2678400000]"
    by (simp add: day_first_days_def sample_entry_def)
  have keys: "map (\<lambda>r. toLocaleDateString_en_GB (timestamp r)) day_first_days
      = [''02/01/1970'', ''01/02/1970'']"
    by (simp add: day_first_days_def sample_entry_def toLocaleDateString_en_GB_def
        en_GB_1970_def)
  have t: "getTime_month_first ''02/01/1970'' = Some 2678400000"
      "getTime_month_first ''01/02/1970'' = Some 86400000"
    by (simp_all add: getTime_month_first_def month_first_1970_def)
  have grouped: "foldl (\<lambda>acc log. increment acc (toLocaleDateString_en_GB (timestamp log)))
         [] day_first_days
      = foldl increment [] (map (\<lambda>r. toLocaleDateString_en_GB (timestamp r)) day_first_days)"
    by (simp add: foldl_map)
  have entries: "Object_entries
      (foldl (\<lambda>acc log. increment acc (toLocaleDateString_en_GB (timestamp log)))
         [] day_first_days)
      = [(''02/01/1970'', 1), (''01/02/1970'', 1)]"
    unfolding grouped keys by (simp add: eval_object)
  have consistent: "consistent_comparefn
      (\<lambda>a b. case (getTime_month_first (fst a), getTime_month_first (fst b)) of
               (Some ta, Some tb) \<Rightarrow> Some (ta - tb) | _ \<Rightarrow> None)
      [(''02/01/1970'', 1 :: nat), (''01/02/1970'', 1)]"
    by (simp add: consistent_comparefn_def SortCompare_def t)
  have "getTimeSeriesData toLocaleDateString_en_GB getTime_month_first day_first_days
      = Some (Array_slice (- 10) None
          (Array_sort
             (\<lambda>a b. case (getTime_month_first (fst a), getTime_month_first (fst b)) of
                      (Some ta, Some tb) \<Rightarrow> Some (ta - tb) | _ \<Rightarrow> None)
             [(''02/01/1970'', 1), (''01/02/1970'', 1)]))"
    unfolding getTimeSeriesData_def Let_def entries by (simp only: consistent if_True)
  also have "\<dots> = Some [(''01/02/1970'', 1), (''02/01/1970'', 1)]"
    by (simp add: eval_array t)
  finally show ?thesis using ts keys by simp
qed

end
